theory Spec2Isabelle
  imports Main "HOL-Library.Multiset" "HOL-Library.Char_ord" "HOL-Library.List_Lexorder"
begin

section \<open>The OpenFoodFacts to Mongo RAW collector (collector/main.py)\<close>

text \<open>
  A shallow embedding of \<^verbatim>\<open>src/collector/main.py\<close>. Python text is modelled by
  \<open>string\<close>, ordered character by character (the order Python compares \<open>str\<close> with);
  Python integers are \<open>int\<close>. A payload is a value decoded from JSON.

  The libraries the program calls are the world it runs in: the digest, the HTTP session,
  the clock and the Mongo server are parameters (\<open>world\<close>), and every answer they can
  give, errors included, is a value. The command line is taken as parsed, the connection
  to Mongo and the creation of the indexes as done, a payload as text that UTF-8 can
  encode, and \<^verbatim>\<open>time.sleep\<close> as returning; the duration that the summary prints is
  left out.
\<close>

subsection \<open>JSON values\<close>

text \<open>
  A \<open>dict\<close> keeps its items in insertion order, so an object is a list of items; a
  Python \<open>dict\<close> holds each key once (\<open>wf_json\<close>). A \<open>float\<close> is carried by the text
  that \<open>float.__repr__\<close> prints for it, which is all that \<open>json.dumps\<close> reads of it.
\<close>

datatype json =
    JNull
  | JBool bool
  | JInt int
  | JFloat string
  | JStr string
  | JArr "json list"
  | JObj "(string \<times> json) list"

fun wf_json :: "json \<Rightarrow> bool" where
  "wf_json (JArr xs) = list_all wf_json xs"
| "wf_json (JObj kvs) = (distinct (map fst kvs) \<and> list_all (\<lambda>kv. wf_json (snd kv)) kvs)"
| "wf_json _ = True"

fun is_dict :: "json \<Rightarrow> bool" where
  "is_dict (JObj _) = True"
| "is_dict _ = False"

subsection \<open>Utils: hashing / canonical JSON\<close>

definition digit_char :: "nat \<Rightarrow> char" where
  "digit_char d = ''0123456789abcdef'' ! d"

fun str_nat :: "nat \<Rightarrow> string" where
  "str_nat n = (if n < 10 then [digit_char n] else str_nat (n div 10) @ [digit_char (n mod 10)])"

declare str_nat.simps [simp del]

definition str_int :: "int \<Rightarrow> string" where
  "str_int i = (if i < 0 then CHR ''-'' # str_nat (nat (- i)) else str_nat (nat i))"

text \<open>
  \<^verbatim>\<open>json.encoder.py_encode_basestring\<close>, which \<open>ensure_ascii=False\<close> selects: the
  backslash, the double quote and the characters below 0x20 are escaped.
\<close>

definition esc_char :: "char \<Rightarrow> string" where
  "esc_char c =
     (if c = CHR 0x5C then [CHR 0x5C, CHR 0x5C]
      else if c = CHR 0x22 then [CHR 0x5C, CHR 0x22]
      else if c = CHR 0x08 then [CHR 0x5C, CHR ''b'']
      else if c = CHR 0x0C then [CHR 0x5C, CHR ''f'']
      else if c = CHR 0x0A then [CHR 0x5C, CHR ''n'']
      else if c = CHR 0x0D then [CHR 0x5C, CHR ''r'']
      else if c = CHR 0x09 then [CHR 0x5C, CHR ''t'']
      else if (of_char c :: nat) < 32
        then [CHR 0x5C, CHR ''u'', CHR ''0'', CHR ''0'',
              digit_char ((of_char c :: nat) div 16), digit_char ((of_char c :: nat) mod 16)]
      else [c])"

definition py_encode_basestring :: "string \<Rightarrow> string" where
  "py_encode_basestring s = CHR 0x22 # concat (map esc_char s) @ [CHR 0x22]"

fun join :: "string \<Rightarrow> string list \<Rightarrow> string" where
  "join sep [] = []"
| "join sep [x] = x"
| "join sep (x # y # ys) = x @ sep @ join sep (y # ys)"

text \<open>
  \<^verbatim>\<open>json.dumps(obj, ensure_ascii=False, sort_keys=True, separators=(",", ":"))\<close>:
  the items of every object are sorted by key, then written with no spaces.
\<close>

fun canonical_json :: "json \<Rightarrow> string" where
  "canonical_json JNull = ''null''"
| "canonical_json (JBool b) = (if b then ''true'' else ''false'')"
| "canonical_json (JInt i) = str_int i"
| "canonical_json (JFloat r) = r"
| "canonical_json (JStr s) = py_encode_basestring s"
| "canonical_json (JArr xs) = ''['' @ join '','' (map canonical_json xs) @ '']''"
| "canonical_json (JObj kvs) =
     ''{'' @ join '',''
        (map (\<lambda>kv. py_encode_basestring (fst kv) @ '':'' @ canonical_json (snd kv))
           (sort_key fst kvs)) @ ''}''"

text \<open>
  \<^verbatim>\<open>hashlib.sha256(text.encode("utf-8")).hexdigest()\<close> is library code: the
  digest is a function of the text, supplied by the \<open>world\<close> below.
\<close>

subsection \<open>The world outside the program\<close>

datatype param = PInt int | PStr string

datatype exn =
    RuntimeError string
  | RequestException string
  | JSONDecodeError
  | AttributeError

text \<open>
  What \<^verbatim>\<open>session.get\<close> returns: the status code, the body as text, and what
  \<^verbatim>\<open>resp.json()\<close> decodes from it (\<open>None\<close> when decoding raises).
\<close>

record response =
  status_code :: int
  resp_text :: string
  resp_json :: "json option"

text \<open>
  \<open>DuplicateKeyError\<close> is the rejection of the unique index; every other subclass of
  \<open>PyMongoError\<close> is \<open>PyMongoError\<close> with its message.
\<close>

datatype pymongo_error = DuplicateKeyError | PyMongoError string

record document =
  source :: string
  fetched_at :: string
  raw_hash :: string
  payload :: json

text \<open>
  The collection: its documents in insertion order, and the number of writes sent to the
  server so far. The server answers the \<open>n\<close>-th write as \<open>store_fault\<close> says.
\<close>

record collection =
  docs :: "document list"
  calls :: nat

record world =
  hashlib_sha256 :: "string \<Rightarrow> string"
  session_get :: "string \<Rightarrow> (string \<times> param) list \<Rightarrow> exn + response"
  clock :: "nat \<Rightarrow> string"
  store_fault :: "nat \<Rightarrow> string option"

definition sha256_hex :: "world \<Rightarrow> string \<Rightarrow> string" where
  "sha256_hex w txt = hashlib_sha256 w txt"

definition utc_now_iso :: "world \<Rightarrow> nat \<Rightarrow> string" where
  "utc_now_iso w n = clock w n"

subsection \<open>HTTP client\<close>

definition rstrip_slash :: "string \<Rightarrow> string" where
  "rstrip_slash s = rev (dropWhile (\<lambda>c. c = CHR ''/'') (rev s))"

definition search_url :: "string \<Rightarrow> string" where
  "search_url base_url = rstrip_slash base_url @ ''/api/v2/search''"

definition search_params :: "int \<Rightarrow> int \<Rightarrow> string option \<Rightarrow> (string \<times> param) list" where
  "search_params page page_size category_en =
     [(''page'', PInt page), (''page_size'', PInt page_size),
      (''sort_by'', PStr ''last_modified_t'')]
     @ (case category_en of
          None \<Rightarrow> []
        | Some c \<Rightarrow> if c = [] then [] else [(''categories_tags_en'', PStr c)])"

definition off_search ::
  "world \<Rightarrow> string \<Rightarrow> int \<Rightarrow> int \<Rightarrow> string option \<Rightarrow> exn + (json list \<times> json)" where
  "off_search w base_url page page_size category_en =
     (let url = search_url base_url;
          params = search_params page page_size category_en
      in case session_get w url params of
           Inl e \<Rightarrow> Inl e
         | Inr resp \<Rightarrow>
             if status_code resp \<noteq> 200
             then Inl (RuntimeError
                    (''OFF HTTP '' @ str_int (status_code resp) @ '': '' @ take 200 (resp_text resp)))
             else (case resp_json resp of
                     None \<Rightarrow> Inl JSONDecodeError
                   | Some (JObj kvs) \<Rightarrow>
                       (case map_of kvs ''products'' of
                          Some (JArr products) \<Rightarrow> Inr (products, JObj kvs)
                        | _ \<Rightarrow> Inl (RuntimeError (''OFF response missing '' @ [CHR 0x27] @ ''products''
                                      @ [CHR 0x27] @ '' list'')))
                   | Some _ \<Rightarrow> Inl AttributeError))"

subsection \<open>Mongo RAW repository\<close>

text \<open>
  \<^verbatim>\<open>raw_col.insert_one(doc)\<close> under the unique index on \<open>raw_hash\<close> that
  \<^verbatim>\<open>ensure_indexes\<close> creates.
\<close>

definition insert_one :: "world \<Rightarrow> collection \<Rightarrow> document \<Rightarrow> (pymongo_error + unit) \<times> collection" where
  "insert_one w col doc =
     (let col' = col\<lparr>calls := Suc (calls col)\<rparr>
      in case store_fault w (calls col) of
           Some msg \<Rightarrow> (Inl (PyMongoError msg), col')
         | None \<Rightarrow>
             if raw_hash doc \<in> set (map raw_hash (docs col))
             then (Inl DuplicateKeyError, col')
             else (Inr (), col'\<lparr>docs := docs col @ [doc]\<rparr>))"

definition insert_raw ::
  "world \<Rightarrow> collection \<Rightarrow> string \<Rightarrow> json \<Rightarrow> (pymongo_error + bool) \<times> collection" where
  "insert_raw w raw_col src pl =
     (let raw_json = canonical_json pl;
          rh = sha256_hex w raw_json;
          doc = \<lparr>source = src, fetched_at = utc_now_iso w (calls raw_col),
                 raw_hash = rh, payload = pl\<rparr>
      in case insert_one w raw_col doc of
           (Inr _, col') \<Rightarrow> (Inr True, col')
         | (Inl DuplicateKeyError, col') \<Rightarrow> (Inr False, col')
         | (Inl e, col') \<Rightarrow> (Inl e, col'))"

subsection \<open>Main collector logic\<close>

record args =
  limit :: int
  page_size :: int
  category_en :: "string option"
  sleep_ms :: int
  max_pages :: int

text \<open>What the program prints, one constructor for each \<^verbatim>\<open>print\<close> of the source.\<close>

datatype line =
    UserAgentRequired
  | Started int int "string option"
  | MongoInfo string string string
  | OffInfo string
  | PageError int exn
  | PageEmpty int
  | PageReceived int nat
  | SkipNotObject
  | MongoErrorLine pymongo_error
  | Summary int int int int
  | Done
  | Stopped

record run =
  inserted :: int
  duplicates :: int
  requested :: int
  failed_pages :: int
  raw_col :: collection
  out :: "line list"

datatype flow = Next | Break

text \<open>One pass through the body of \<^verbatim>\<open>for p in products\<close>.\<close>

definition process_record :: "world \<Rightarrow> int \<Rightarrow> json \<Rightarrow> run \<Rightarrow> flow \<times> run" where
  "process_record w lim p s =
     (let s1 = s\<lparr>requested := requested s + 1\<rparr>
      in if \<not> is_dict p then (Next, s1\<lparr>out := out s1 @ [SkipNotObject]\<rparr>)
         else (case insert_raw w (raw_col s1) ''openfoodfacts'' p of
                 (Inl e, c) \<Rightarrow> (Next, s1\<lparr>raw_col := c, out := out s1 @ [MongoErrorLine e]\<rparr>)
               | (Inr ok, c) \<Rightarrow>
                   (let s2 = (if ok then s1\<lparr>inserted := inserted s1 + 1, raw_col := c\<rparr>
                              else s1\<lparr>duplicates := duplicates s1 + 1, raw_col := c\<rparr>)
                    in (if inserted s2 \<ge> lim then Break else Next, s2))))"

fun process_products :: "world \<Rightarrow> int \<Rightarrow> json list \<Rightarrow> run \<Rightarrow> run" where
  "process_products w lim [] s = s"
| "process_products w lim (p # ps) s =
     (case process_record w lim p s of
        (Break, s') \<Rightarrow> s'
      | (Next, s') \<Rightarrow> process_products w lim ps s')"

text \<open>
  One pass through the body of the \<^verbatim>\<open>while\<close> loop, from page cursor \<open>page\<close>: the
  way it leaves the body, the cursor and the state after it. \<^verbatim>\<open>time.sleep\<close>
  changes none of them.
\<close>

definition loop_body :: "world \<Rightarrow> string \<Rightarrow> args \<Rightarrow> int \<Rightarrow> run \<Rightarrow> flow \<times> int \<times> run" where
  "loop_body w off_base_url a page s =
     (case off_search w off_base_url page (page_size a) (category_en a) of
        Inl e \<Rightarrow>
          (Next, page + 1,
           s\<lparr>failed_pages := failed_pages s + 1, out := out s @ [PageError page e]\<rparr>)
      | Inr (products, full) \<Rightarrow>
          if products = [] then (Break, page, s\<lparr>out := out s @ [PageEmpty page]\<rparr>)
          else (let s1 = s\<lparr>out := out s @ [PageReceived page (length products)]\<rparr>
                in (Next, page + 1, process_products w (limit a) products s1)))"

function collect :: "world \<Rightarrow> string \<Rightarrow> args \<Rightarrow> int \<Rightarrow> run \<Rightarrow> int \<times> run" where
  "collect w off_base_url a page s =
     (if inserted s < limit a \<and> page \<le> max_pages a
      then (case loop_body w off_base_url a page s of
              (Break, page', s') \<Rightarrow> (page', s')
            | (Next, page', s') \<Rightarrow> collect w off_base_url a page' s')
      else (page, s))"
  by pat_completeness auto
termination
  apply (relation "measure (\<lambda>(w, b, a, page, s). nat (max_pages a + 1 - page))")
   apply simp
  apply (auto simp: loop_body_def split: sum.splits prod.splits if_splits)
  done

declare collect.simps [simp del]

definition getenv :: "(string \<rightharpoonup> string) \<Rightarrow> string \<Rightarrow> string \<Rightarrow> string" where
  "getenv environ name dflt = (case environ name of None \<Rightarrow> dflt | Some v \<Rightarrow> v)"

definition isspace :: "char \<Rightarrow> bool" where
  "isspace c = ((of_char c :: nat) \<in> {9, 10, 11, 12, 13, 28, 29, 30, 31, 32, 133, 160})"

definition strip :: "string \<Rightarrow> string" where
  "strip s = rev (dropWhile isspace (rev (dropWhile isspace s)))"

definition final_lines :: "args \<Rightarrow> run \<Rightarrow> line list" where
  "final_lines a s =
     [Summary (requested s) (inserted s) (duplicates s) (failed_pages s),
      if inserted s \<ge> limit a then Done else Stopped]"

definition start :: "collection \<Rightarrow> run" where
  "start col = \<lparr>inserted = 0, duplicates = 0, requested = 0, failed_pages = 0,
                raw_col = col, out = []\<rparr>"

definition banner :: "(string \<rightharpoonup> string) \<Rightarrow> args \<Rightarrow> line list" where
  "banner environ a =
     [Started (limit a) (page_size a) (category_en a),
      MongoInfo (getenv environ ''MONGO_URI'' ''mongodb://localhost:27017'')
        (getenv environ ''MONGO_DB'' ''food_pipeline'')
        (getenv environ ''MONGO_RAW_COLLECTION'' ''raw_products''),
      OffInfo (getenv environ ''OFF_BASE_URL'' ''https://world.openfoodfacts.org'')]"

text \<open>
  \<^verbatim>\<open>main()\<close>, from the process environment, the parsed command line and the
  collection as the run finds it: the exit code and the state the run ends in.
\<close>

definition main :: "world \<Rightarrow> (string \<rightharpoonup> string) \<Rightarrow> args \<Rightarrow> collection \<Rightarrow> int \<times> run" where
  "main w environ a col =
     (let off_base_url = getenv environ ''OFF_BASE_URL'' ''https://world.openfoodfacts.org'';
          off_user_agent = strip (getenv environ ''OFF_USER_AGENT'' [])
      in if off_user_agent = [] then (2, (start col)\<lparr>out := [UserAgentRequired]\<rparr>)
         else (let s1 = (start col)\<lparr>out := banner environ a\<rparr>;
                   s2 = snd (collect w off_base_url a 1 s1);
                   s3 = s2\<lparr>out := out s2 @ final_lines a s2\<rparr>
               in if inserted s2 \<ge> limit a then (0, s3) else (1, s3)))"

subsection \<open>Payloads that differ in key order only\<close>

text \<open>
  \<open>key_perm a b\<close>: \<open>b\<close> is \<open>a\<close> with the items of its objects, at any depth, taken in
  another order. Whitespace between the tokens of a JSON text is gone once the text is
  decoded, so two texts that differ in it give the same payload.
\<close>

inductive key_perm :: "json \<Rightarrow> json \<Rightarrow> bool" where
  kp_null: "key_perm JNull JNull"
| kp_bool: "key_perm (JBool b) (JBool b)"
| kp_int: "key_perm (JInt i) (JInt i)"
| kp_float: "key_perm (JFloat r) (JFloat r)"
| kp_str: "key_perm (JStr s) (JStr s)"
| kp_arr: "list_all2 key_perm xs ys \<Longrightarrow> key_perm (JArr xs) (JArr ys)"
| kp_obj: "list_all2 (\<lambda>a b. fst a = fst b \<and> key_perm (snd a) (snd b)) xs zs
           \<Longrightarrow> mset zs = mset ys \<Longrightarrow> key_perm (JObj xs) (JObj ys)"

subsection \<open>Sample inputs\<close>

definition page_of :: "(string \<times> param) list \<Rightarrow> int" where
  "page_of ps = (case map_of ps ''page'' of Some (PInt n) \<Rightarrow> n | _ \<Rightarrow> 0)"

text \<open>
  A world that answers page \<open>n\<close> with \<open>pages n\<close> and the \<open>n\<close>-th write as \<open>faults n\<close>
  says; its digest is one-to-one.
\<close>

definition sample_world :: "(int \<Rightarrow> exn + response) \<Rightarrow> (nat \<Rightarrow> string option) \<Rightarrow> world" where
  "sample_world pages faults =
     \<lparr>hashlib_sha256 = (\<lambda>t. t), session_get = (\<lambda>url ps. pages (page_of ps)),
      clock = (\<lambda>n. ''2024-01-01T00:00:0'' @ str_nat n), store_fault = faults\<rparr>"

definition ok_page :: "json list \<Rightarrow> exn + response" where
  "ok_page recs =
     Inr \<lparr>status_code = 200, resp_text = [], resp_json = Some (JObj [(''products'', JArr recs)])\<rparr>"

definition product :: "int \<Rightarrow> json" where
  "product n = JObj [(''code'', JInt n)]"

definition sample_args :: "int \<Rightarrow> int \<Rightarrow> args" where
  "sample_args lim cap =
     \<lparr>limit = lim, page_size = 100, category_en = None, sleep_ms = 150, max_pages = cap\<rparr>"

definition empty_col :: collection where
  "empty_col = \<lparr>docs = [], calls = 0\<rparr>"

definition quiet_world :: world where
  "quiet_world = sample_world (\<lambda>n. ok_page []) (\<lambda>n. None)"


definition sample_environ :: "string \<rightharpoonup> string" where
  "sample_environ = [''OFF_USER_AGENT'' \<mapsto> ''collector/1.0 (ops@example.org)'']"

definition faulty_world :: world where
  "faulty_world =
     sample_world (\<lambda>n. ok_page [product 1, product 2])
       (\<lambda>n. if n = 0 then Some ''connection refused'' else None)"



definition scarce_world :: world where
  "scarce_world = sample_world (\<lambda>n. ok_page [product n, product (n + 100)]) (\<lambda>n. None)"

definition ten_world :: world where
  "ten_world =
     sample_world (\<lambda>n. ok_page [product 1, product 2, product 3, product 4, product 5,
                                product 6, product 7, product 8, product 9, product 10])
       (\<lambda>n. None)"

definition capped_world :: world where
  "capped_world =
     sample_world (\<lambda>n. if n \<le> 2 then ok_page [product n, product (n + 100)]
                        else Inl (RequestException ''unreachable'')) (\<lambda>n. None)"

definition nonauth_response :: response where
  "nonauth_response =
     \<lparr>status_code = 203, resp_text = ''{ }'',
      resp_json = Some (JObj [(''products'', JArr [product 1])])\<rparr>"

definition nonauth_world :: world where
  "nonauth_world = sample_world (\<lambda>n. Inr nonauth_response) (\<lambda>n. None)"

subsection \<open>Notions the properties are stated with\<close>

text \<open>The unique index on \<open>raw_hash\<close>: no two documents of the collection share one.\<close>

definition unique_index :: "collection \<Rightarrow> bool" where
  "unique_index col = distinct (map raw_hash (docs col))"

text \<open>The pages fetched, read off the one line that each pass of the loop prints.\<close>

fun pages_fetched :: "line list \<Rightarrow> int list" where
  "pages_fetched [] = []"
| "pages_fetched (PageError n e # ls) = n # pages_fetched ls"
| "pages_fetched (PageEmpty n # ls) = n # pages_fetched ls"
| "pages_fetched (PageReceived n k # ls) = n # pages_fetched ls"
| "pages_fetched (l # ls) = pages_fetched ls"

text \<open>
  Two worlds that differ at most in what they answer for pages outside \<open>1..max_pages\<close>.
\<close>

definition same_below_cap :: "world \<Rightarrow> world \<Rightarrow> string \<Rightarrow> args \<Rightarrow> bool" where
  "same_below_cap w w' b a =
     (hashlib_sha256 w' = hashlib_sha256 w \<and> clock w' = clock w \<and> store_fault w' = store_fault w
      \<and> (\<forall>p. 1 \<le> p \<and> p \<le> max_pages a \<longrightarrow>
             session_get w' (search_url b) (search_params p (page_size a) (category_en a))
               = session_get w (search_url b) (search_params p (page_size a) (category_en a))))"

definition counters_ok :: "run \<Rightarrow> bool" where
  "counters_ok s =
     (0 \<le> inserted s \<and> 0 \<le> duplicates s \<and> 0 \<le> requested s \<and> 0 \<le> failed_pages s
      \<and> inserted s + duplicates s \<le> requested s)"

definition counters_le :: "run \<Rightarrow> run \<Rightarrow> bool" where
  "counters_le s s' =
     (inserted s \<le> inserted s' \<and> duplicates s \<le> duplicates s'
      \<and> requested s \<le> requested s' \<and> failed_pages s \<le> failed_pages s')"

section \<open>Properties\<close>

subsection \<open>Canonical JSON and the fingerprint\<close>

lemma insort_key_rel:
  assumes "fst a = fst b" "g a = g b"
    and "list_all2 (\<lambda>a b. fst a = fst b \<and> g a = g b) xs zs"
  shows "list_all2 (\<lambda>a b. fst a = fst b \<and> g a = g b)
           (insort_key fst a xs) (insort_key fst b zs)"
  using assms(3,1,2) by (induction rule: list_all2_induct) auto

lemma sort_key_rel:
  assumes "list_all2 (\<lambda>a b. fst a = fst b \<and> g a = g b) xs zs"
  shows "list_all2 (\<lambda>a b. fst a = fst b \<and> g a = g b) (sort_key fst xs) (sort_key fst zs)"
  using assms by (induction rule: list_all2_induct) (auto intro: insort_key_rel)

lemma map_sort_key_rel:
  assumes "list_all2 (\<lambda>a b. fst a = fst b \<and> g a = g b) xs zs"
  shows "map g (sort_key fst xs) = map g (sort_key fst zs)"
proof -
  have "list_all2 (\<lambda>a b. g a = g b) (sort_key fst xs) (sort_key fst zs)"
    using sort_key_rel [OF assms] by (rule list_all2_mono) simp
  then show ?thesis
    by (induction rule: list_all2_induct) auto
qed

lemma list_all2_keys:
  "list_all2 (\<lambda>a b. fst a = fst b \<and> P a b) xs zs \<Longrightarrow> map fst xs = map fst zs"
  by (induction rule: list_all2_induct) auto

lemma key_perm_canonical:
  "key_perm a b \<Longrightarrow> wf_json a \<Longrightarrow> canonical_json a = canonical_json b"
proof (induction rule: key_perm.induct)
  case (kp_arr xs ys)
  from kp_arr.IH kp_arr.prems have "map canonical_json xs = map canonical_json ys"
    by (induction rule: list_all2_induct) auto
  then show ?case by simp
next
  case (kp_obj xs zs ys)
  let ?g = "\<lambda>kv. py_encode_basestring (fst kv) @ '':'' @ canonical_json (snd kv)"
  have wfx: "distinct (map fst xs)" "list_all (\<lambda>kv. wf_json (snd kv)) xs"
    using kp_obj.prems by simp_all
  from kp_obj.IH wfx(2)
  have rel: "list_all2 (\<lambda>a b. fst a = fst b \<and> ?g a = ?g b) xs zs"
    by (induction rule: list_all2_induct) auto
  have keys: "map fst xs = map fst zs"
    using rel by (rule list_all2_keys)
  have "inj_on fst (set zs)"
    using wfx(1) keys by (simp add: distinct_map)
  with \<open>mset zs = mset ys\<close> have "sort_key fst zs = sort_key fst ys"
    by (rule sort_key_eq_sort_key)
  moreover have "map ?g (sort_key fst xs) = map ?g (sort_key fst zs)"
    using rel by (rule map_sort_key_rel)
  ultimately show ?case by simp
qed simp_all

text \<open>
  C2. The fingerprint of a payload is \<open>sha256_hex\<close> of its \<open>canonical_json\<close>, a function
  of the payload alone; two payloads that differ only in the order of the keys of their
  objects, at any depth, have the same canonical text and the same fingerprint.
\<close>

theorem fingerprint_key_order:
  assumes "wf_json a" and "key_perm a b"
  shows "canonical_json a = canonical_json b
         \<and> sha256_hex w (canonical_json a) = sha256_hex w (canonical_json b)"
  using key_perm_canonical [OF assms(2,1)] by simp

theorem fingerprint_key_order_witness:
  "wf_json (JObj [(''b'', JInt 2), (''a'', JObj [(''y'', JNull), (''x'', JStr ''v w'')])])
   \<and> key_perm (JObj [(''b'', JInt 2), (''a'', JObj [(''y'', JNull), (''x'', JStr ''v w'')])])
        (JObj [(''a'', JObj [(''x'', JStr ''v w''), (''y'', JNull)]), (''b'', JInt 2)])
   \<and> canonical_json (JObj [(''b'', JInt 2), (''a'', JObj [(''y'', JNull), (''x'', JStr ''v w'')])])
       = canonical_json (JObj [(''a'', JObj [(''x'', JStr ''v w''), (''y'', JNull)]), (''b'', JInt 2)])
   \<and> sha256_hex (sample_world (\<lambda>n. ok_page []) (\<lambda>n. None))
        (canonical_json (JObj [(''b'', JInt 2), (''a'', JObj [(''y'', JNull), (''x'', JStr ''v w'')])]))
       = sha256_hex (sample_world (\<lambda>n. ok_page []) (\<lambda>n. None))
           (canonical_json (JObj [(''a'', JObj [(''x'', JStr ''v w''), (''y'', JNull)]), (''b'', JInt 2)]))"
proof -
  let ?a = "JObj [(''b'', JInt 2), (''a'', JObj [(''y'', JNull), (''x'', JStr ''v w'')])]"
  let ?b = "JObj [(''a'', JObj [(''x'', JStr ''v w''), (''y'', JNull)]), (''b'', JInt 2)]"
  have wf: "wf_json ?a" by simp
  have "key_perm (JObj [(''y'', JNull), (''x'', JStr ''v w'')])
          (JObj [(''x'', JStr ''v w''), (''y'', JNull)])"
    by (rule kp_obj [where zs = "[(''y'', JNull), (''x'', JStr ''v w'')]"])
       (simp_all add: key_perm.intros)
  then have kp: "key_perm ?a ?b"
    by (intro kp_obj [where zs = "[(''b'', JInt 2),
          (''a'', JObj [(''x'', JStr ''v w''), (''y'', JNull)])]"])
       (simp_all add: key_perm.intros)
  show ?thesis
    using wf kp fingerprint_key_order [OF wf kp] by simp
qed

subsection \<open>The sink, one record, one page, the loop\<close>

lemma insert_raw_eq:
  "insert_raw w col src p =
     (case store_fault w (calls col) of
        Some m \<Rightarrow> (Inl (PyMongoError m), col\<lparr>calls := Suc (calls col)\<rparr>)
      | None \<Rightarrow>
          if sha256_hex w (canonical_json p) \<in> raw_hash ` set (docs col)
          then (Inr False, col\<lparr>calls := Suc (calls col)\<rparr>)
          else (Inr True, col\<lparr>calls := Suc (calls col),
                  docs := docs col @ [\<lparr>source = src, fetched_at = utc_now_iso w (calls col),
                     raw_hash = sha256_hex w (canonical_json p), payload = p\<rparr>]\<rparr>))"
  by (simp add: insert_raw_def insert_one_def Let_def split: option.splits)

lemma process_record_eq:
  "process_record w lim p s =
     (if \<not> is_dict p
      then (Next, s\<lparr>requested := requested s + 1, out := out s @ [SkipNotObject]\<rparr>)
      else (case store_fault w (calls (raw_col s)) of
              Some m \<Rightarrow>
                (Next, s\<lparr>requested := requested s + 1,
                          raw_col := (raw_col s)\<lparr>calls := Suc (calls (raw_col s))\<rparr>,
                          out := out s @ [MongoErrorLine (PyMongoError m)]\<rparr>)
            | None \<Rightarrow>
                if sha256_hex w (canonical_json p) \<in> raw_hash ` set (docs (raw_col s))
                then (if lim \<le> inserted s then Break else Next,
                      s\<lparr>requested := requested s + 1, duplicates := duplicates s + 1,
                        raw_col := (raw_col s)\<lparr>calls := Suc (calls (raw_col s))\<rparr>\<rparr>)
                else (if lim \<le> inserted s + 1 then Break else Next,
                      s\<lparr>requested := requested s + 1, inserted := inserted s + 1,
                        raw_col := (raw_col s)\<lparr>calls := Suc (calls (raw_col s)),
                          docs := docs (raw_col s) @
                            [\<lparr>source = ''openfoodfacts'',
                              fetched_at = utc_now_iso w (calls (raw_col s)),
                              raw_hash = sha256_hex w (canonical_json p), payload = p\<rparr>]\<rparr>\<rparr>)))"
  by (simp add: process_record_def insert_raw_eq Let_def split: option.splits)

lemma process_record_flow:
  assumes "inserted s < lim" "process_record w lim p s = (fl, s')"
  shows "(fl = Break) = (lim \<le> inserted s')" "inserted s' \<le> lim"
  using assms by (auto simp: process_record_eq split: if_splits option.splits)

lemma process_record_counters:
  assumes "process_record w lim p s = (fl, s')"
  shows "requested s' = requested s + 1" "failed_pages s' = failed_pages s"
    "inserted s \<le> inserted s'" "duplicates s \<le> duplicates s'"
    "inserted s' + duplicates s' \<le> inserted s + duplicates s + 1"
  using assms by (auto simp: process_record_eq split: if_splits option.splits)

lemma pages_fetched_append:
  "pages_fetched (xs @ ys) = pages_fetched xs @ pages_fetched ys"
  by (induction xs rule: pages_fetched.induct) simp_all

lemma process_record_out:
  assumes "process_record w lim p s = (fl, s')"
  shows "pages_fetched (out s') = pages_fetched (out s)"
  using assms
  by (auto simp: process_record_eq pages_fetched_append split: if_splits option.splits)

lemma process_record_unique:
  assumes "process_record w lim p s = (fl, s')" "unique_index (raw_col s)"
  shows "unique_index (raw_col s')"
  using assms
  by (auto simp: process_record_eq unique_index_def split: if_splits option.splits)

lemma process_products_out:
  "pages_fetched (out (process_products w lim ps s)) = pages_fetched (out s)"
proof (induction ps arbitrary: s)
  case Nil
  show ?case by simp
next
  case (Cons p ps)
  obtain fl s' where r: "process_record w lim p s = (fl, s')"
    by (cases "process_record w lim p s")
  with Cons.IH [of s'] process_record_out [OF r] show ?case
    by (cases fl) simp_all
qed

lemma process_products_unique:
  "unique_index (raw_col s) \<Longrightarrow> unique_index (raw_col (process_products w lim ps s))"
proof (induction ps arbitrary: s)
  case Nil
  then show ?case by simp
next
  case (Cons p ps)
  obtain fl s' where r: "process_record w lim p s = (fl, s')"
    by (cases "process_record w lim p s")
  with Cons.IH [of s'] process_record_unique [OF r Cons.prems] show ?case
    by (cases fl) simp_all
qed

lemma process_products_le_lim:
  "inserted s < lim \<Longrightarrow> inserted (process_products w lim ps s) \<le> lim"
proof (induction ps arbitrary: s)
  case Nil
  then show ?case by simp
next
  case (Cons p ps)
  obtain fl s' where r: "process_record w lim p s = (fl, s')"
    by (cases "process_record w lim p s")
  show ?case
  proof (cases fl)
    case Next
    with process_record_flow [OF Cons.prems r] have "inserted s' < lim" by simp
    with Cons.IH [of s'] r Next show ?thesis by simp
  next
    case Break
    with process_record_flow(2) [OF Cons.prems r] r show ?thesis by simp
  qed
qed

lemma process_products_append:
  assumes "inserted s < lim"
  shows "process_products w lim (xs @ ys) s =
           (if lim \<le> inserted (process_products w lim xs s) then process_products w lim xs s
            else process_products w lim ys (process_products w lim xs s))"
  using assms
proof (induction xs arbitrary: s)
  case Nil
  then show ?case by simp
next
  case (Cons p xs)
  obtain fl s' where r: "process_record w lim p s = (fl, s')"
    by (cases "process_record w lim p s")
  show ?case
  proof (cases fl)
    case Next
    with process_record_flow [OF Cons.prems r] have "inserted s' < lim" by simp
    with Cons.IH [of s'] r Next show ?thesis by simp
  next
    case Break
    with process_record_flow(1) [OF Cons.prems r] r show ?thesis by simp
  qed
qed

lemma process_products_requested:
  assumes "inserted s < lim" "inserted (process_products w lim ps s) < lim"
  shows "requested (process_products w lim ps s) = requested s + int (length ps)"
  using assms
proof (induction ps arbitrary: s)
  case Nil
  then show ?case by simp
next
  case (Cons p ps)
  obtain fl s' where r: "process_record w lim p s = (fl, s')"
    by (cases "process_record w lim p s")
  show ?case
  proof (cases fl)
    case Next
    with process_record_flow [OF Cons.prems(1) r] have lt: "inserted s' < lim" by simp
    from Cons.prems(2) r Next have "inserted (process_products w lim ps s') < lim" by simp
    with Cons.IH [OF lt] r Next process_record_counters(1) [OF r] show ?thesis by simp
  next
    case Break
    with process_record_flow(1) [OF Cons.prems(1) r] r Cons.prems(2) show ?thesis by simp
  qed
qed

lemma process_products_counters:
  "counters_ok s \<Longrightarrow>
   counters_ok (process_products w lim ps s) \<and> counters_le s (process_products w lim ps s)"
proof (induction ps arbitrary: s)
  case Nil
  then show ?case by (simp add: counters_le_def)
next
  case (Cons p ps)
  obtain fl s' where r: "process_record w lim p s = (fl, s')"
    by (cases "process_record w lim p s")
  from process_record_counters [OF r] Cons.prems
  have ok: "counters_ok s'" and le: "counters_le s s'"
    by (simp_all add: counters_ok_def counters_le_def)
  show ?case
  proof (cases fl)
    case Next
    with Cons.IH [OF ok] le r show ?thesis
      by (auto simp: counters_le_def)
  next
    case Break
    with ok le r show ?thesis by simp
  qed
qed

lemma loop_body_error:
  "off_search w b page (page_size a) (category_en a) = Inl e \<Longrightarrow>
   loop_body w b a page s =
     (Next, page + 1, s\<lparr>failed_pages := failed_pages s + 1, out := out s @ [PageError page e]\<rparr>)"
  by (simp add: loop_body_def)

lemma loop_body_empty:
  "off_search w b page (page_size a) (category_en a) = Inr ([], full) \<Longrightarrow>
   loop_body w b a page s = (Break, page, s\<lparr>out := out s @ [PageEmpty page]\<rparr>)"
  by (simp add: loop_body_def)

lemma loop_body_products:
  "off_search w b page (page_size a) (category_en a) = Inr (products, full) \<Longrightarrow> products \<noteq> [] \<Longrightarrow>
   loop_body w b a page s =
     (Next, page + 1,
      process_products w (limit a) products
        (s\<lparr>out := out s @ [PageReceived page (length products)]\<rparr>))"
  by (simp add: loop_body_def)

lemma loop_body_cases:
  obtains (error) e where "off_search w b page (page_size a) (category_en a) = Inl e"
      "loop_body w b a page s =
         (Next, page + 1, s\<lparr>failed_pages := failed_pages s + 1, out := out s @ [PageError page e]\<rparr>)"
  | (empty) full where "off_search w b page (page_size a) (category_en a) = Inr ([], full)"
      "loop_body w b a page s = (Break, page, s\<lparr>out := out s @ [PageEmpty page]\<rparr>)"
  | (products) products full where
      "off_search w b page (page_size a) (category_en a) = Inr (products, full)" "products \<noteq> []"
      "loop_body w b a page s =
         (Next, page + 1,
          process_products w (limit a) products
            (s\<lparr>out := out s @ [PageReceived page (length products)]\<rparr>))"
proof (cases "off_search w b page (page_size a) (category_en a)")
  case (Inl e)
  then show ?thesis using error loop_body_error by blast
next
  case (Inr r)
  obtain products full where r: "r = (products, full)" by (cases r)
  show ?thesis
  proof (cases "products = []")
    case True
    with Inr r show ?thesis using empty loop_body_empty by blast
  next
    case False
    with Inr r show ?thesis using products loop_body_products by blast
  qed
qed

lemma loop_body_cursor:
  assumes "loop_body w b a page s = (fl, page', s')"
  shows "page' = (if fl = Next then page + 1 else page)
         \<and> pages_fetched (out s') = pages_fetched (out s) @ [page]"
proof (cases rule: loop_body_cases [of w b page a s])
  case (error e)
  with assms show ?thesis by (auto simp: pages_fetched_append)
next
  case (empty full)
  with assms show ?thesis by (auto simp: pages_fetched_append)
next
  case (products products full)
  with assms show ?thesis by (auto simp: pages_fetched_append process_products_out)
qed

lemma loop_body_counters:
  assumes "loop_body w b a page s = (fl, page', s')" "counters_ok s"
  shows "counters_ok s' \<and> counters_le s s'"
proof (cases rule: loop_body_cases [of w b page a s])
  case (error e)
  with assms show ?thesis by (auto simp: counters_ok_def counters_le_def)
next
  case (empty full)
  with assms show ?thesis by (auto simp: counters_ok_def counters_le_def)
next
  case (products products full)
  let ?s1 = "s\<lparr>out := out s @ [PageReceived page (length products)]\<rparr>"
  have "counters_ok ?s1" using assms(2) by (simp add: counters_ok_def)
  from process_products_counters [OF this, of w "limit a" products] products(3) assms(1)
  show ?thesis by (auto simp: counters_le_def)
qed

lemma loop_body_unique:
  assumes "loop_body w b a page s = (fl, page', s')" "unique_index (raw_col s)"
  shows "unique_index (raw_col s')"
proof (cases rule: loop_body_cases [of w b page a s])
  case (products products full)
  let ?s1 = "s\<lparr>out := out s @ [PageReceived page (length products)]\<rparr>"
  have "unique_index (raw_col ?s1)" using assms(2) by simp
  from process_products_unique [OF this, of w "limit a" products] products(3) assms(1)
  show ?thesis by simp
qed (use assms in auto)

lemma loop_body_le_lim:
  assumes "loop_body w b a page s = (fl, page', s')" "inserted s < limit a"
  shows "inserted s' \<le> limit a"
proof (cases rule: loop_body_cases [of w b page a s])
  case (products products full)
  let ?s1 = "s\<lparr>out := out s @ [PageReceived page (length products)]\<rparr>"
  have "inserted ?s1 < limit a" using assms(2) by simp
  from process_products_le_lim [OF this, of w products] products(3) assms(1)
  show ?thesis by simp
qed (use assms in auto)

lemma collect_induct [case_names stop break step]:
  assumes stop: "\<And>page s. \<not> (inserted s < limit a \<and> page \<le> max_pages a) \<Longrightarrow> P page s"
    and brk: "\<And>page s page' s'. inserted s < limit a \<Longrightarrow> page \<le> max_pages a \<Longrightarrow>
           loop_body w b a page s = (Break, page', s') \<Longrightarrow> P page s"
    and nxt: "\<And>page s page' s'. inserted s < limit a \<Longrightarrow> page \<le> max_pages a \<Longrightarrow>
           loop_body w b a page s = (Next, page', s') \<Longrightarrow> P page' s' \<Longrightarrow> P page s"
  shows "P page s"
proof -
  have "\<forall>page s. nat (max_pages a + 1 - page) = n \<longrightarrow> P page s" for n
  proof (induction n rule: less_induct)
    case (less n)
    show ?case
    proof (intro allI impI)
      fix page s
      assume n: "nat (max_pages a + 1 - page) = n"
      show "P page s"
      proof (cases "inserted s < limit a \<and> page \<le> max_pages a")
        case False
        then show ?thesis by (rule stop)
      next
        case True
        obtain fl page' s' where r: "loop_body w b a page s = (fl, page', s')"
          by (cases "loop_body w b a page s")
        show ?thesis
        proof (cases fl)
          case Break
          with True r show ?thesis using brk by blast
        next
          case Next
          with loop_body_cursor [OF r] have "page' = page + 1" by simp
          with True n have "nat (max_pages a + 1 - page') < n" by auto
          with less.IH have "P page' s'" by blast
          with True r Next show ?thesis using nxt by blast
        qed
      qed
    qed
  qed
  then show ?thesis by simp
qed

lemma collect_stop:
  "\<not> (inserted s < limit a \<and> page \<le> max_pages a) \<Longrightarrow> collect w b a page s = (page, s)"
  by (subst collect.simps) auto

lemma collect_break:
  "inserted s < limit a \<Longrightarrow> page \<le> max_pages a \<Longrightarrow> loop_body w b a page s = (Break, page', s')
   \<Longrightarrow> collect w b a page s = (page', s')"
  by (subst collect.simps) simp

lemma collect_next:
  "inserted s < limit a \<Longrightarrow> page \<le> max_pages a \<Longrightarrow> loop_body w b a page s = (Next, page', s')
   \<Longrightarrow> collect w b a page s = collect w b a page' s'"
  by (subst collect.simps) simp

lemma counters_le_trans: "counters_le s s' \<Longrightarrow> counters_le s' s'' \<Longrightarrow> counters_le s s''"
  by (auto simp: counters_le_def)

lemma collect_counters:
  "counters_ok s \<Longrightarrow>
   counters_ok (snd (collect w b a page s)) \<and> counters_le s (snd (collect w b a page s))"
proof (induction page s rule: collect_induct [of a _ w b])
  case (stop page s)
  then show ?case by (simp add: collect_stop counters_le_def)
next
  case (break page s page' s')
  with loop_body_counters [OF break.hyps(3)] show ?case by (simp add: collect_break)
next
  case (step page s page' s')
  from loop_body_counters [OF step.hyps(3) step.prems]
  have ok: "counters_ok s'" and le: "counters_le s s'" by simp_all
  from step.IH [OF ok] le show ?case
    using step.hyps by (auto simp: collect_next intro: counters_le_trans)
qed

lemma collect_unique:
  "unique_index (raw_col s) \<Longrightarrow> unique_index (raw_col (snd (collect w b a page s)))"
proof (induction page s rule: collect_induct [of a _ w b])
  case (stop page s)
  then show ?case by (simp add: collect_stop)
next
  case (break page s page' s')
  with loop_body_unique [OF break.hyps(3)] show ?case by (simp add: collect_break)
next
  case (step page s page' s')
  from step.IH [OF loop_body_unique [OF step.hyps(3) step.prems]] show ?case
    using step.hyps by (simp add: collect_next)
qed

lemma collect_le_lim:
  "inserted (snd (collect w b a page s)) \<le> max (inserted s) (limit a)"
proof (induction page s rule: collect_induct [of a _ w b])
  case (stop page s)
  then show ?case by (simp add: collect_stop)
next
  case (break page s page' s')
  with loop_body_le_lim [OF break.hyps(3)] show ?case by (simp add: collect_break)
next
  case (step page s page' s')
  with loop_body_le_lim [OF step.hyps(3)] show ?case by (simp add: collect_next)
qed

lemma sample_world_sel [simp]:
  "hashlib_sha256 (sample_world pages faults) t = t"
  "session_get (sample_world pages faults) url ps = pages (page_of ps)"
  "store_fault (sample_world pages faults) n = faults n"
  by (simp_all add: sample_world_def)

lemma sample_args_sel [simp]:
  "limit (sample_args lim cap) = lim" "max_pages (sample_args lim cap) = cap"
  "page_size (sample_args lim cap) = 100" "category_en (sample_args lim cap) = None"
  by (simp_all add: sample_args_def)

lemma start_sel [simp]:
  "inserted (start col) = 0" "duplicates (start col) = 0" "requested (start col) = 0"
  "failed_pages (start col) = 0" "raw_col (start col) = col" "out (start col) = []"
  by (simp_all add: start_def)

lemma main_missing:
  "strip (getenv environ ''OFF_USER_AGENT'' []) = [] \<Longrightarrow>
   main w environ a col = (2, (start col)\<lparr>out := [UserAgentRequired]\<rparr>)"
  by (simp add: main_def Let_def)

lemma main_run:
  assumes "strip (getenv environ ''OFF_USER_AGENT'' []) \<noteq> []"
    and "s2 = snd (collect w (getenv environ ''OFF_BASE_URL'' ''https://world.openfoodfacts.org'')
                 a 1 ((start col)\<lparr>out := banner environ a\<rparr>))"
  shows "main w environ a col =
           (if limit a \<le> inserted s2 then 0 else 1, s2\<lparr>out := out s2 @ final_lines a s2\<rparr>)"
  using assms by (simp add: main_def Let_def)

lemma process_record_keeps:
  assumes "process_record w lim p s = (fl, s')" "h \<in> raw_hash ` set (docs (raw_col s))"
  shows "h \<in> raw_hash ` set (docs (raw_col s'))"
  using assms by (auto simp: process_record_eq split: if_splits option.splits)

lemma process_products_keeps:
  "h \<in> raw_hash ` set (docs (raw_col s)) \<Longrightarrow>
   h \<in> raw_hash ` set (docs (raw_col (process_products w lim ps s)))"
proof (induction ps arbitrary: s)
  case Nil
  then show ?case by simp
next
  case (Cons p ps)
  obtain fl s' where r: "process_record w lim p s = (fl, s')"
    by (cases "process_record w lim p s")
  with Cons.IH [of s'] process_record_keeps [OF r Cons.prems] show ?case
    by (cases fl) simp_all
qed

lemma loop_body_keeps:
  assumes "loop_body w b a page s = (fl, page', s')" "h \<in> raw_hash ` set (docs (raw_col s))"
  shows "h \<in> raw_hash ` set (docs (raw_col s'))"
proof (cases rule: loop_body_cases [of w b page a s])
  case (products products full)
  let ?s1 = "s\<lparr>out := out s @ [PageReceived page (length products)]\<rparr>"
  have "h \<in> raw_hash ` set (docs (raw_col ?s1))" using assms(2) by simp
  from process_products_keeps [OF this, of w "limit a" products] products(3) assms(1)
  show ?thesis by simp
qed (use assms in auto)

lemma collect_keeps:
  "h \<in> raw_hash ` set (docs (raw_col s)) \<Longrightarrow>
   h \<in> raw_hash ` set (docs (raw_col (snd (collect w b a page s))))"
proof (induction page s rule: collect_induct [of a _ w b])
  case (stop page s)
  then show ?case by (simp add: collect_stop)
next
  case (break page s page' s')
  with loop_body_keeps [OF break.hyps(3)] show ?case by (simp add: collect_break)
next
  case (step page s page' s')
  from step.IH [OF loop_body_keeps [OF step.hyps(3) step.prems]] show ?case
    using step.hyps by (simp add: collect_next)
qed

lemma main_unique:
  "unique_index col \<Longrightarrow> unique_index (raw_col (snd (main w environ a col)))"
proof (cases "strip (getenv environ ''OFF_USER_AGENT'' []) = []")
  case True
  assume "unique_index col"
  with True show ?thesis by (simp add: main_missing)
next
  case False
  assume "unique_index col"
  then have "unique_index (raw_col ((start col)\<lparr>out := banner environ a\<rparr>))" by simp
  from collect_unique [OF this] main_run [OF False refl, of w a col] show ?thesis
    by simp
qed

lemma main_keeps:
  "h \<in> raw_hash ` set (docs col) \<Longrightarrow>
   h \<in> raw_hash ` set (docs (raw_col (snd (main w environ a col))))"
proof (cases "strip (getenv environ ''OFF_USER_AGENT'' []) = []")
  case True
  assume "h \<in> raw_hash ` set (docs col)"
  with True show ?thesis by (simp add: main_missing)
next
  case False
  assume "h \<in> raw_hash ` set (docs col)"
  then have "h \<in> raw_hash ` set (docs (raw_col ((start col)\<lparr>out := banner environ a\<rparr>)))"
    by simp
  from collect_keeps [OF this] main_run [OF False refl, of w a col] show ?thesis
    by simp
qed

lemma main_le_limit:
  "0 \<le> limit a \<Longrightarrow> inserted (snd (main w environ a col)) \<le> limit a"
proof (cases "strip (getenv environ ''OFF_USER_AGENT'' []) = []")
  case True
  assume "0 \<le> limit a"
  with True show ?thesis by (simp add: main_missing)
next
  case False
  assume "0 \<le> limit a"
  with collect_le_lim [of w "getenv environ ''OFF_BASE_URL'' ''https://world.openfoodfacts.org''"
      a 1 "(start col)\<lparr>out := banner environ a\<rparr>"]
    main_run [OF False refl, of w a col]
  show ?thesis by simp
qed

lemma insert_raw_world:
  assumes "hashlib_sha256 w' = hashlib_sha256 w" "clock w' = clock w" "store_fault w' = store_fault w"
  shows "insert_raw w' col src p = insert_raw w col src p"
  unfolding insert_raw_def insert_one_def sha256_hex_def utc_now_iso_def assms
  by (rule refl)

lemma process_record_world:
  assumes "hashlib_sha256 w' = hashlib_sha256 w" "clock w' = clock w" "store_fault w' = store_fault w"
  shows "process_record w' lim p s = process_record w lim p s"
  unfolding process_record_def insert_raw_world [OF assms]
  by (rule refl)

lemma process_products_world:
  assumes "hashlib_sha256 w' = hashlib_sha256 w" "clock w' = clock w" "store_fault w' = store_fault w"
  shows "process_products w' lim ps s = process_products w lim ps s"
  by (induction ps arbitrary: s)
     (simp_all add: process_record_world [OF assms] split: prod.splits flow.splits)

lemma loop_body_world:
  assumes "same_below_cap w w' b a" "1 \<le> page" "page \<le> max_pages a"
  shows "loop_body w' b a page s = loop_body w b a page s"
proof -
  from assms have o: "off_search w' b page (page_size a) (category_en a)
                     = off_search w b page (page_size a) (category_en a)"
    by (simp add: off_search_def same_below_cap_def)
  from assms(1) have p: "process_products w' (limit a) ps t = process_products w (limit a) ps t"
    for ps t
    by (intro process_products_world) (simp_all add: same_below_cap_def)
  show ?thesis
    unfolding loop_body_def o p by (rule refl)
qed

lemma collect_world:
  assumes "same_below_cap w w' b a"
  shows "1 \<le> page \<Longrightarrow> collect w' b a page s = collect w b a page s"
proof (induction page s rule: collect_induct [of a _ w b])
  case (stop page s)
  then show ?case by (simp add: collect_stop)
next
  case (break page s page' s')
  from loop_body_world [OF assms break.prems break.hyps(2)] break.hyps
  have "loop_body w' b a page s = (Break, page', s')" by simp
  with break.hyps show ?case by (simp add: collect_break)
next
  case (step page s page' s')
  from loop_body_world [OF assms step.prems step.hyps(2)] step.hyps
  have b': "loop_body w' b a page s = (Next, page', s')" by simp
  from loop_body_cursor [OF step.hyps(3)] step.prems have "1 \<le> page'" by simp
  with step.IH have "collect w' b a page' s' = collect w b a page' s'" by simp
  with b' step.hyps show ?case by (simp add: collect_next)
qed

lemma main_world:
  assumes "same_below_cap w w'
             (getenv environ ''OFF_BASE_URL'' ''https://world.openfoodfacts.org'') a"
  shows "main w' environ a col = main w environ a col"
  using collect_world [OF assms, of 1] by (simp add: main_def Let_def)

subsection \<open>Idempotent ingestion\<close>

lemma count_unique:
  "distinct (map raw_hash ds) \<Longrightarrow> h \<in> raw_hash ` set ds \<Longrightarrow>
   length (filter (\<lambda>d. raw_hash d = h) ds) = 1"
proof (induction ds)
  case Nil
  then show ?case by simp
next
  case (Cons d ds)
  show ?case
  proof (cases "raw_hash d = h")
    case True
    from Cons.prems(1) have "raw_hash d \<notin> raw_hash ` set ds" by simp
    with True have "\<forall>x\<in>set ds. raw_hash x \<noteq> h" by blast
    then have "filter (\<lambda>d. raw_hash d = h) ds = []"
      by (simp add: filter_empty_conv)
    with True show ?thesis by simp
  next
    case False
    with Cons show ?thesis by auto
  qed
qed

text \<open>
  C1. Once \<open>insert_raw\<close> has inserted a payload, a later call with the same payload
  never inserts: it leaves the documents as they are and, whenever the server answers,
  returns \<open>False\<close>, so the controller adds one to \<open>duplicates\<close> and nothing to
  \<open>inserted\<close>. The collection holds exactly one document with that fingerprint, and
  still does after any further \<open>insert_raw\<close> and after any later run of \<open>main\<close>.
\<close>

theorem idempotent_ingestion:
  assumes "unique_index col"
    and "insert_raw w col src p = (Inr True, col1)"
  shows "fst (insert_raw w col1 src' p) \<noteq> Inr True
       \<and> docs (snd (insert_raw w col1 src' p)) = docs col1
       \<and> (store_fault w (calls col1) = None \<longrightarrow> fst (insert_raw w col1 src' p) = Inr False)
       \<and> (raw_col s = col1 \<longrightarrow>
            inserted (snd (process_record w lim p s)) = inserted s
            \<and> (is_dict p \<and> store_fault w (calls col1) = None \<longrightarrow>
                 duplicates (snd (process_record w lim p s)) = duplicates s + 1))
       \<and> unique_index col1
       \<and> length (filter (\<lambda>d. raw_hash d = sha256_hex w (canonical_json p)) (docs col1)) = 1
       \<and> unique_index (snd (insert_raw w col1 src'' q))
       \<and> length (filter (\<lambda>d. raw_hash d = sha256_hex w (canonical_json p))
                  (docs (snd (insert_raw w col1 src'' q)))) = 1
       \<and> unique_index (raw_col (snd (main w environ a col1)))
       \<and> length (filter (\<lambda>d. raw_hash d = sha256_hex w (canonical_json p))
                  (docs (raw_col (snd (main w environ a col1))))) = 1"
proof -
  let ?h = "sha256_hex w (canonical_json p)"
  from assms(2) have in1: "?h \<in> raw_hash ` set (docs col1)"
    by (auto simp: insert_raw_eq split: option.splits if_splits)
  from assms have u1: "unique_index col1"
    by (auto simp: insert_raw_eq unique_index_def split: option.splits if_splits)
  have u2: "unique_index (snd (insert_raw w col1 src'' q))"
    using u1 by (auto simp: insert_raw_eq unique_index_def split: option.splits)
  have in2: "?h \<in> raw_hash ` set (docs (snd (insert_raw w col1 src'' q)))"
    using in1 by (auto simp: insert_raw_eq split: option.splits)
  have a: "fst (insert_raw w col1 src' p) \<noteq> Inr True"
    "docs (snd (insert_raw w col1 src' p)) = docs col1"
    "store_fault w (calls col1) = None \<longrightarrow> fst (insert_raw w col1 src' p) = Inr False"
    using in1 by (auto simp: insert_raw_eq split: option.splits)
  have b: "raw_col s = col1 \<longrightarrow>
            inserted (snd (process_record w lim p s)) = inserted s
            \<and> (is_dict p \<and> store_fault w (calls col1) = None \<longrightarrow>
                 duplicates (snd (process_record w lim p s)) = duplicates s + 1)"
    using in1 by (auto simp: process_record_eq split: option.splits)
  have c: "length (filter (\<lambda>d. raw_hash d = ?h) (docs col1)) = 1"
    using u1 in1 by (simp add: unique_index_def count_unique)
  have d: "length (filter (\<lambda>d. raw_hash d = ?h) (docs (snd (insert_raw w col1 src'' q)))) = 1"
    using u2 in2 by (simp add: unique_index_def count_unique)
  have u3: "unique_index (raw_col (snd (main w environ a col1)))"
    using u1 by (rule main_unique)
  have e: "length (filter (\<lambda>d. raw_hash d = ?h) (docs (raw_col (snd (main w environ a col1))))) = 1"
    using u3 main_keeps [OF in1] by (simp add: unique_index_def count_unique)
  from a b c d e u1 u2 u3 show ?thesis by blast
qed

theorem idempotent_ingestion_witness:
  "unique_index empty_col
   \<and> fst (insert_raw quiet_world empty_col ''openfoodfacts'' (product 1)) = Inr True
   \<and> fst (insert_raw quiet_world
            (snd (insert_raw quiet_world empty_col ''openfoodfacts'' (product 1)))
            ''openfoodfacts'' (product 1)) = Inr False
   \<and> length (docs (snd (insert_raw quiet_world
            (snd (insert_raw quiet_world empty_col ''openfoodfacts'' (product 1)))
            ''openfoodfacts'' (product 1)))) = 1"
proof -
  let ?c1 = "snd (insert_raw quiet_world empty_col ''openfoodfacts'' (product 1))"
  have h1: "unique_index empty_col"
    by (simp add: unique_index_def empty_col_def)
  have t: "fst (insert_raw quiet_world empty_col ''openfoodfacts'' (product 1)) = Inr True"
    by (simp add: insert_raw_eq quiet_world_def empty_col_def)
  then have h2: "insert_raw quiet_world empty_col ''openfoodfacts'' (product 1) = (Inr True, ?c1)"
    by (simp add: prod_eq_iff)
  have h3: "store_fault quiet_world (calls ?c1) = None"
    by (simp add: quiet_world_def)
  have h4: "length (docs ?c1) = 1"
    by (simp add: insert_raw_eq quiet_world_def empty_col_def)
  from idempotent_ingestion [OF h1 h2, of "''openfoodfacts''"] h3 h4
  have "fst (insert_raw quiet_world ?c1 ''openfoodfacts'' (product 1)) = Inr False"
    and "length (docs (snd (insert_raw quiet_world ?c1 ''openfoodfacts'' (product 1)))) = 1"
    by simp_all
  with h1 t show ?thesis by simp
qed

subsection \<open>Failures of a page and of a record\<close>


lemma off_search_sample:
  "off_search (sample_world pages faults) b page ps cat =
     (case pages page of
        Inl e \<Rightarrow> Inl e
      | Inr resp \<Rightarrow>
          if status_code resp \<noteq> 200
          then Inl (RuntimeError
                 (''OFF HTTP '' @ str_int (status_code resp) @ '': '' @ take 200 (resp_text resp)))
          else (case resp_json resp of
                  None \<Rightarrow> Inl JSONDecodeError
                | Some (JObj kvs) \<Rightarrow>
                    (case map_of kvs ''products'' of
                       Some (JArr products) \<Rightarrow> Inr (products, JObj kvs)
                     | _ \<Rightarrow> Inl (RuntimeError (''OFF response missing '' @ [CHR 0x27] @ ''products''
                                   @ [CHR 0x27] @ '' list'')))
                | Some _ \<Rightarrow> Inl AttributeError))"
  by (simp add: off_search_def search_params_def page_of_def Let_def)




subsection \<open>How the loop ends\<close>



subsection \<open>The exit code and the counters\<close>



lemma counters_ok_start: "counters_ok ((start col)\<lparr>out := ls\<rparr>)"
  by (simp add: counters_ok_def)

lemma main_counters: "counters_ok (snd (main w environ a col))"
proof (cases "strip (getenv environ ''OFF_USER_AGENT'' []) = []")
  case True
  then show ?thesis by (simp add: main_missing counters_ok_def)
next
  case False
  let ?s2 = "snd (collect w (getenv environ ''OFF_BASE_URL'' ''https://world.openfoodfacts.org'')
                 a 1 ((start col)\<lparr>out := banner environ a\<rparr>))"
  have "counters_ok ?s2"
    using collect_counters [OF counters_ok_start] by blast
  with main_run [OF False refl, of w a col] show ?thesis
    by (simp add: counters_ok_def)
qed

text \<open>
  C10. Each record processed adds exactly one to \<open>requested\<close> and at most one to one of
  \<open>inserted\<close> and \<open>duplicates\<close>, nothing to either when it is not an object or the
  store raises. The four counters start at zero and never decrease, and
  \<open>inserted + duplicates \<le> requested\<close> holds after every record, page and pass of the
  loop, and in the state \<open>main\<close> ends in.
\<close>

theorem counter_accounting:
  "(process_record w lim p s = (fl, s') \<longrightarrow>
      requested s' = requested s + 1 \<and> failed_pages s' = failed_pages s
      \<and> ((inserted s' = inserted s + 1 \<and> duplicates s' = duplicates s)
          \<or> (inserted s' = inserted s \<and> duplicates s' = duplicates s + 1)
          \<or> (inserted s' = inserted s \<and> duplicates s' = duplicates s))
      \<and> (\<not> is_dict p \<or> store_fault w (calls (raw_col s)) \<noteq> None \<longrightarrow>
            inserted s' = inserted s \<and> duplicates s' = duplicates s))
   \<and> (counters_ok s \<longrightarrow>
        counters_ok (snd (process_record w lim p s))
        \<and> counters_le s (snd (process_record w lim p s))
        \<and> counters_ok (process_products w lim ps s)
        \<and> counters_le s (process_products w lim ps s)
        \<and> counters_ok (snd (snd (loop_body w b a page s)))
        \<and> counters_le s (snd (snd (loop_body w b a page s)))
        \<and> counters_ok (snd (collect w b a page s))
        \<and> counters_le s (snd (collect w b a page s)))
   \<and> counters_ok (start col)
   \<and> counters_ok (snd (main w environ a col))"
proof -
  have rec: "process_record w lim p s = (fl, s') \<longrightarrow>
      requested s' = requested s + 1 \<and> failed_pages s' = failed_pages s
      \<and> ((inserted s' = inserted s + 1 \<and> duplicates s' = duplicates s)
          \<or> (inserted s' = inserted s \<and> duplicates s' = duplicates s + 1)
          \<or> (inserted s' = inserted s \<and> duplicates s' = duplicates s))
      \<and> (\<not> is_dict p \<or> store_fault w (calls (raw_col s)) \<noteq> None \<longrightarrow>
            inserted s' = inserted s \<and> duplicates s' = duplicates s)"
    by (auto simp: process_record_eq split: if_splits option.splits)
  have inv: "counters_ok (snd (process_record w lim p s))
        \<and> counters_le s (snd (process_record w lim p s))
        \<and> counters_ok (process_products w lim ps s)
        \<and> counters_le s (process_products w lim ps s)
        \<and> counters_ok (snd (snd (loop_body w b a page s)))
        \<and> counters_le s (snd (snd (loop_body w b a page s)))
        \<and> counters_ok (snd (collect w b a page s))
        \<and> counters_le s (snd (collect w b a page s))" if ok: "counters_ok s"
  proof -
    obtain f1 s1 where r1: "process_record w lim p s = (f1, s1)"
      by (cases "process_record w lim p s")
    from process_record_counters [OF r1] ok
    have a: "counters_ok s1 \<and> counters_le s s1"
      by (simp add: counters_ok_def counters_le_def)
    obtain f2 p2 s2 where r2: "loop_body w b a page s = (f2, p2, s2)"
      by (cases "loop_body w b a page s")
    from a r1 process_products_counters [OF ok] loop_body_counters [OF r2 ok]
      collect_counters [OF ok] r2
    show ?thesis by simp
  qed
  have "counters_ok (start col)" by (simp add: counters_ok_def)
  with rec inv main_counters show ?thesis by blast
qed

theorem counter_accounting_witness:
  "counters_ok (start empty_col)
   \<and> process_products faulty_world 5 [product 1, JNull, product 2, product 2] (start empty_col)
       = \<lparr>inserted = 1, duplicates = 1, requested = 4, failed_pages = 0,
          raw_col = raw_col (process_products faulty_world 5
                      [product 1, JNull, product 2, product 2] (start empty_col)),
          out = [MongoErrorLine (PyMongoError ''connection refused''), SkipNotObject]\<rparr>
   \<and> counters_ok (process_products faulty_world 5 [product 1, JNull, product 2, product 2]
        (start empty_col))
   \<and> counters_ok (snd (main faulty_world sample_environ (sample_args 1 3) empty_col))
   \<and> process_record faulty_world 5 JNull (start empty_col)
       = (Next, (start empty_col)\<lparr>requested := 1, out := [SkipNotObject]\<rparr>)
   \<and> requested ((start empty_col)\<lparr>requested := 1, out := [SkipNotObject]\<rparr>)
       = requested (start empty_col) + 1"
proof -
  have ok: "counters_ok (start empty_col)"
    by (simp add: counters_ok_def)
  have r: "process_record faulty_world 5 JNull (start empty_col)
             = (Next, (start empty_col)\<lparr>requested := 1, out := [SkipNotObject]\<rparr>)"
    by (simp add: process_record_eq)
  from r counter_accounting [where w = faulty_world and lim = 5 and s = "start empty_col"
      and p = JNull and fl = Next
      and s' = "(start empty_col)\<lparr>requested := 1, out := [SkipNotObject]\<rparr>"]
  have q: "requested ((start empty_col)\<lparr>requested := 1, out := [SkipNotObject]\<rparr>)
             = requested (start empty_col) + 1"
    by blast
  have e: "process_products faulty_world 5 [product 1, JNull, product 2, product 2] (start empty_col)
       = \<lparr>inserted = 1, duplicates = 1, requested = 4, failed_pages = 0,
          raw_col = raw_col (process_products faulty_world 5
                      [product 1, JNull, product 2, product 2] (start empty_col)),
          out = [MongoErrorLine (PyMongoError ''connection refused''), SkipNotObject]\<rparr>"
    by code_simp
  note t = counter_accounting [where w = faulty_world and lim = 5 and s = "start empty_col"
      and ps = "[product 1, JNull, product 2, product 2]" and environ = sample_environ
      and a = "sample_args 1 3" and col = empty_col]
  from t ok
  have "counters_ok (process_products faulty_world 5 [product 1, JNull, product 2, product 2]
          (start empty_col))"
    and "counters_ok (snd (main faulty_world sample_environ (sample_args 1 3) empty_col))"
    by blast+
  with ok e r q show ?thesis by blast
qed

subsection \<open>The page cap and the target\<close>

lemma collect_cursor:
  "\<exists>q. pages_fetched (out (snd (collect w b a page s))) = pages_fetched (out s) @ [page..q]
       \<and> page - 1 \<le> q \<and> q \<le> max (max_pages a) (page - 1)
       \<and> (q = fst (collect w b a page s) - 1
            \<or> q = fst (collect w b a page s) \<and> q \<le> max_pages a)"
proof (induction page s rule: collect_induct [of a _ w b])
  case (stop page s)
  then show ?case by (intro exI [of _ "page - 1"]) (simp add: collect_stop)
next
  case (break page s page' s')
  with loop_body_cursor [OF break.hyps(3)] show ?case
    by (intro exI [of _ page]) (simp add: collect_break)
next
  case (step page s page' s')
  from loop_body_cursor [OF step.hyps(3)]
  have p: "page' = page + 1" and o: "pages_fetched (out s') = pages_fetched (out s) @ [page]"
    by simp_all
  from step.IH obtain q where
    q: "pages_fetched (out (snd (collect w b a page' s'))) = pages_fetched (out s') @ [page'..q]"
      "page' - 1 \<le> q" "q \<le> max (max_pages a) (page' - 1)"
      "q = fst (collect w b a page' s') - 1 \<or> q = fst (collect w b a page' s') \<and> q \<le> max_pages a"
    by blast
  from q(2) p have "[page..q] = page # [page'..q]"
    by (simp add: upto_rec1)
  with q o p step.hyps show ?case
    by (intro exI [of _ q]) (simp add: collect_next)
qed

lemma pages_fetched_banner [simp]: "pages_fetched (banner environ a) = []"
  by (simp add: banner_def)

lemma pages_fetched_final [simp]: "pages_fetched (final_lines a s) = []"
  by (simp add: final_lines_def)

lemma main_pages:
  "\<exists>q. pages_fetched (out (snd (main w environ a col))) = [1..q] \<and> q \<le> max (max_pages a) 0"
proof (cases "strip (getenv environ ''OFF_USER_AGENT'' []) = []")
  case True
  then show ?thesis by (intro exI [of _ 0]) (simp add: main_missing)
next
  case False
  let ?s1 = "(start col)\<lparr>out := banner environ a\<rparr>"
  let ?b = "getenv environ ''OFF_BASE_URL'' ''https://world.openfoodfacts.org''"
  from collect_cursor [of w ?b a 1 ?s1] obtain q where
    "pages_fetched (out (snd (collect w ?b a 1 ?s1))) = [1..q]" "q \<le> max (max_pages a) 0"
    by auto
  with main_run [OF False refl, of w a col] show ?thesis
    by (intro exI [of _ q]) (simp add: pages_fetched_append)
qed

text \<open>
  C8. \<open>collect\<close> is a total function (its cursor grows towards the cap at every pass).
  The pages a run fetches are fetched in increasing order, each once, each between 1 and
  \<open>max_pages\<close>, so there are at most \<open>max_pages\<close> of them. When the loop ends with the
  cursor beyond the cap and \<open>inserted\<close> below the limit, every page up to the cap was
  fetched and the run ends as \<open>Stopped\<close> with exit code 1. What the world would answer
  for a page beyond the cap has no effect on the run.
\<close>

theorem bounded_termination:
  "sorted_wrt (<) (pages_fetched (out (snd (main w environ a col))))
   \<and> set (pages_fetched (out (snd (main w environ a col)))) \<subseteq> {1..max_pages a}
   \<and> length (pages_fetched (out (snd (main w environ a col)))) \<le> nat (max_pages a)
   \<and> (strip (getenv environ ''OFF_USER_AGENT'' []) \<noteq> []
        \<and> max_pages a < fst (collect w
              (getenv environ ''OFF_BASE_URL'' ''https://world.openfoodfacts.org'') a 1
              ((start col)\<lparr>out := banner environ a\<rparr>))
        \<and> inserted (snd (main w environ a col)) < limit a \<longrightarrow>
          fst (main w environ a col) = 1
          \<and> last (out (snd (main w environ a col))) = Stopped
          \<and> pages_fetched (out (snd (main w environ a col))) = [1..max_pages a])
   \<and> (same_below_cap w w'
          (getenv environ ''OFF_BASE_URL'' ''https://world.openfoodfacts.org'') a \<longrightarrow>
        main w' environ a col = main w environ a col)"
proof -
  let ?r = "main w environ a col"
  from main_pages [of w environ a col] obtain q where
    q: "pages_fetched (out (snd ?r)) = [1..q]" "q \<le> max (max_pages a) 0"
    by blast
  have a1: "sorted_wrt (<) (pages_fetched (out (snd ?r)))"
    using q(1) by (simp add: strict_sorted_iff)
  have a2: "set (pages_fetched (out (snd ?r))) \<subseteq> {1..max_pages a}"
    using q by auto
  have a3: "length (pages_fetched (out (snd ?r))) \<le> nat (max_pages a)"
    using q by auto
  have a4: "fst ?r = 1 \<and> last (out (snd ?r)) = Stopped
            \<and> pages_fetched (out (snd ?r)) = [1..max_pages a]"
    if ua: "strip (getenv environ ''OFF_USER_AGENT'' []) \<noteq> []"
      and cap: "max_pages a < fst (collect w
              (getenv environ ''OFF_BASE_URL'' ''https://world.openfoodfacts.org'') a 1
              ((start col)\<lparr>out := banner environ a\<rparr>))"
      and lt: "inserted (snd ?r) < limit a"
  proof -
    let ?s1 = "(start col)\<lparr>out := banner environ a\<rparr>"
    let ?b = "getenv environ ''OFF_BASE_URL'' ''https://world.openfoodfacts.org''"
    note m = main_run [OF ua refl, of w a col]
    from m lt have i: "inserted (snd (collect w ?b a 1 ?s1)) < limit a"
      by simp
    from collect_cursor [of w ?b a 1 ?s1] obtain q' where
      q': "pages_fetched (out (snd (collect w ?b a 1 ?s1))) = [1..q']"
        "q' \<le> max (max_pages a) 0"
        "q' = fst (collect w ?b a 1 ?s1) - 1 \<or> q' = fst (collect w ?b a 1 ?s1) \<and> q' \<le> max_pages a"
      by auto
    have "[1..q'] = [1..max_pages a]"
    proof (cases "0 \<le> max_pages a")
      case True
      with q'(2,3) cap have "q' = max_pages a" by linarith
      then show ?thesis by simp
    next
      case False
      with q'(2) show ?thesis by simp
    qed
    with q'(1) m i show ?thesis
      by (simp add: pages_fetched_append final_lines_def)
  qed
  have a5: "main w' environ a col = main w environ a col"
    if "same_below_cap w w'
          (getenv environ ''OFF_BASE_URL'' ''https://world.openfoodfacts.org'') a"
    using that by (rule main_world)
  from a1 a2 a3 a4 a5 show ?thesis by blast
qed

theorem bounded_termination_witness:
  "strip (getenv sample_environ ''OFF_USER_AGENT'' []) \<noteq> []
   \<and> max_pages (sample_args 1000 2) < fst (collect scarce_world
        (getenv sample_environ ''OFF_BASE_URL'' ''https://world.openfoodfacts.org'')
        (sample_args 1000 2) 1 ((start empty_col)\<lparr>out := banner sample_environ (sample_args 1000 2)\<rparr>))
   \<and> inserted (snd (main scarce_world sample_environ (sample_args 1000 2) empty_col)) = 4
   \<and> fst (main scarce_world sample_environ (sample_args 1000 2) empty_col) = 1
   \<and> pages_fetched (out (snd (main scarce_world sample_environ (sample_args 1000 2) empty_col)))
       = [1, 2]
   \<and> same_below_cap scarce_world capped_world
        (getenv sample_environ ''OFF_BASE_URL'' ''https://world.openfoodfacts.org'')
        (sample_args 1000 2)
   \<and> main capped_world sample_environ (sample_args 1000 2) empty_col
       = main scarce_world sample_environ (sample_args 1000 2) empty_col"
proof -
  have h1: "strip (getenv sample_environ ''OFF_USER_AGENT'' []) \<noteq> []"
    by code_simp
  have h4: "same_below_cap scarce_world capped_world
        (getenv sample_environ ''OFF_BASE_URL'' ''https://world.openfoodfacts.org'')
        (sample_args 1000 2)"
    by (simp add: same_below_cap_def scarce_world_def capped_world_def sample_world_def
        search_params_def page_of_def)
  from bounded_termination [of scarce_world sample_environ "sample_args 1000 2" empty_col
      capped_world] h4
  have w: "main capped_world sample_environ (sample_args 1000 2) empty_col
       = main scarce_world sample_environ (sample_args 1000 2) empty_col"
    by blast
  have h2: "max_pages (sample_args 1000 2) < fst (collect scarce_world
        (getenv sample_environ ''OFF_BASE_URL'' ''https://world.openfoodfacts.org'')
        (sample_args 1000 2) 1 ((start empty_col)\<lparr>out := banner sample_environ (sample_args 1000 2)\<rparr>))"
    by code_simp
  have h3: "inserted (snd (main scarce_world sample_environ (sample_args 1000 2) empty_col)) = 4"
    by code_simp
  have u: "[1..2] = [1, 2::int]"
    by code_simp
  from bounded_termination [of scarce_world sample_environ "sample_args 1000 2" empty_col] h1 h2 h3 u
  have "fst (main scarce_world sample_environ (sample_args 1000 2) empty_col) = 1"
    and "pages_fetched (out (snd (main scarce_world sample_environ (sample_args 1000 2) empty_col)))
       = [1, 2]"
    by simp_all
  with h1 h2 h3 h4 w show ?thesis by blast
qed

text \<open>
  C3. When \<open>inserted\<close> reaches the limit at a record \<open>p\<close> of a page, the records after
  \<open>p\<close> are not processed, the loop ends after that page, \<open>inserted\<close> equals the limit
  and \<open>requested\<close> has counted the records up to \<open>p\<close> only. No run ends with
  \<open>inserted\<close> above a limit that is not negative.
\<close>

theorem target_termination:
  assumes "inserted s < limit a" and "page \<le> max_pages a"
    and "off_search w b page (page_size a) (category_en a) = Inr (pre @ p # rest, full)"
    and "s1 = s\<lparr>out := out s @ [PageReceived page (length (pre @ p # rest))]\<rparr>"
    and "inserted (process_products w (limit a) pre s1) < limit a"
    and "limit a \<le> inserted (process_products w (limit a) (pre @ [p]) s1)"
  shows "process_products w (limit a) (pre @ p # rest) s1 = process_products w (limit a) (pre @ [p]) s1
       \<and> collect w b a page s = (page + 1, process_products w (limit a) (pre @ [p]) s1)
       \<and> inserted (snd (collect w b a page s)) = limit a
       \<and> requested (snd (collect w b a page s)) = requested s + int (length pre) + 1
       \<and> (0 \<le> limit a \<longrightarrow> inserted (snd (main w environ a col)) \<le> limit a)"
proof -
  let ?lim = "limit a"
  let ?sN = "process_products w ?lim (pre @ [p]) s1"
  from assms(1,4) have lt1: "inserted s1 < ?lim" by simp
  have "process_products w ?lim ((pre @ [p]) @ rest) s1 = ?sN"
    using assms(6) by (simp only: process_products_append [OF lt1] if_True)
  then have cut: "process_products w ?lim (pre @ p # rest) s1 = ?sN" by simp
  from assms(3,4) cut have body: "loop_body w b a page s = (Next, page + 1, ?sN)"
    by (simp add: loop_body_products)
  have "collect w b a (page + 1) ?sN = (page + 1, ?sN)"
    using assms(6) by (simp add: collect_stop)
  with collect_next [OF assms(1,2) body]
  have run: "collect w b a page s = (page + 1, ?sN)" by simp
  from process_products_le_lim [OF lt1, of w "pre @ [p]"] assms(6)
  have ins: "inserted ?sN = ?lim" by simp
  let ?t = "process_products w ?lim pre s1"
  have split: "?sN = process_products w ?lim [p] ?t"
    using assms(5) by (simp add: process_products_append [OF lt1])
  obtain fl t' where r: "process_record w ?lim p ?t = (fl, t')"
    by (cases "process_record w ?lim p ?t")
  then have "process_products w ?lim [p] ?t = t'"
    by (cases fl) simp_all
  with split process_record_counters(1) [OF r]
  have "requested ?sN = requested ?t + 1" by simp
  also have "requested ?t = requested s1 + int (length pre)"
    using lt1 assms(5) by (rule process_products_requested)
  finally have req: "requested ?sN = requested s + int (length pre) + 1"
    using assms(4) by simp
  from cut run ins req main_le_limit [of a w environ col] show ?thesis by simp
qed

theorem target_termination_witness:
  "inserted (start empty_col) < limit (sample_args 5 50) \<and> 1 \<le> max_pages (sample_args 5 50)
   \<and> off_search ten_world ''https://off.example'' 1 100 None
       = Inr ([product 1, product 2, product 3, product 4] @ product 5 #
                [product 6, product 7, product 8, product 9, product 10],
              JObj [(''products'', JArr [product 1, product 2, product 3, product 4, product 5,
                                product 6, product 7, product 8, product 9, product 10])])
   \<and> inserted (snd (collect ten_world ''https://off.example'' (sample_args 5 50) 1
         (start empty_col))) = 5
   \<and> requested (snd (collect ten_world ''https://off.example'' (sample_args 5 50) 1
         (start empty_col))) = 5
   \<and> fst (collect ten_world ''https://off.example'' (sample_args 5 50) 1 (start empty_col)) = 2
   \<and> length (docs (raw_col (snd (main ten_world sample_environ (sample_args 5 50) empty_col)))) = 5"
proof -
  let ?pre = "[product 1, product 2, product 3, product 4]"
  let ?rest = "[product 6, product 7, product 8, product 9, product 10]"
  let ?s1 = "(start empty_col)\<lparr>out := out (start empty_col) @
               [PageReceived 1 (length (?pre @ product 5 # ?rest))]\<rparr>"
  have h1: "inserted (start empty_col) < limit (sample_args 5 50)" by simp
  have h2: "1 \<le> max_pages (sample_args 5 50)" by simp
  have h3: "off_search ten_world ''https://off.example'' 1
              (page_size (sample_args 5 50)) (category_en (sample_args 5 50))
       = Inr (?pre @ product 5 # ?rest,
              JObj [(''products'', JArr [product 1, product 2, product 3, product 4, product 5,
                                product 6, product 7, product 8, product 9, product 10])])"
    by (simp add: ten_world_def off_search_sample ok_page_def)
  have h5: "inserted (process_products ten_world (limit (sample_args 5 50)) ?pre ?s1)
              < limit (sample_args 5 50)"
    by code_simp
  have h6: "limit (sample_args 5 50)
              \<le> inserted (process_products ten_world (limit (sample_args 5 50))
                   (?pre @ [product 5]) ?s1)"
    by code_simp
  have e: "length (docs (raw_col (snd (main ten_world sample_environ (sample_args 5 50)
             empty_col)))) = 5"
    by code_simp
  note t = target_termination [OF h1 h2 h3 refl h5 h6]
  from t [THEN conjunct2, THEN conjunct1]
  have c1: "fst (collect ten_world ''https://off.example'' (sample_args 5 50) 1 (start empty_col)) = 2"
    by (simp only: fst_conv; simp)
  from t [THEN conjunct2, THEN conjunct2, THEN conjunct1]
  have c2: "inserted (snd (collect ten_world ''https://off.example'' (sample_args 5 50) 1
         (start empty_col))) = 5"
    by (simp only: sample_args_sel)
  from t [THEN conjunct2, THEN conjunct2, THEN conjunct2, THEN conjunct1]
  have c3: "requested (snd (collect ten_world ''https://off.example'' (sample_args 5 50) 1
         (start empty_col))) = 5"
    by (simp only: start_sel list.size; simp)
  from h1 h2 h3 c1 c2 c3 e show ?thesis
    by (simp only: sample_args_sel; simp)
qed

subsection \<open>The outcome of a fetch\<close>

text \<open>
  A response with status 203 and a list of products: \<open>off_search\<close> raises, though the
  status is a 2xx and the body has the list.
\<close>

theorem off_search_2xx_counterexample:
  "session_get nonauth_world (search_url ''https://off.example'') (search_params 1 100 None)
     = Inr nonauth_response
   \<and> 200 \<le> status_code nonauth_response \<and> status_code nonauth_response < 300
   \<and> resp_json nonauth_response = Some (JObj [(''products'', JArr [product 1])])
   \<and> off_search nonauth_world ''https://off.example'' 1 100 None
       = Inl (RuntimeError ''OFF HTTP 203: { }'')"
  by (simp add: nonauth_world_def nonauth_response_def off_search_sample str_int_def
      str_nat.simps digit_char_def)

text \<open>
  C6, amended. \<open>off_search\<close> returns the list of records exactly when \<open>session.get\<close>
  returns a response with status 200 whose body decodes to an object with a list under
  \<open>products\<close>; in every other case it raises. For a status other than 200 the error
  carries the status code and the first 200 characters of the body; an error of
  \<open>session.get\<close> is passed on.
\<close>

theorem off_search_outcome:
  "(off_search w b page ps cat = Inr (products, data) \<longleftrightarrow>
      (\<exists>resp kvs. session_get w (search_url b) (search_params page ps cat) = Inr resp
         \<and> status_code resp = 200 \<and> resp_json resp = Some (JObj kvs)
         \<and> map_of kvs ''products'' = Some (JArr products) \<and> data = JObj kvs))
   \<and> (session_get w (search_url b) (search_params page ps cat) = Inr resp
        \<and> status_code resp \<noteq> 200 \<longrightarrow>
        off_search w b page ps cat
          = Inl (RuntimeError (''OFF HTTP '' @ str_int (status_code resp) @ '': ''
                                 @ take 200 (resp_text resp))))
   \<and> (session_get w (search_url b) (search_params page ps cat) = Inl e \<longrightarrow>
        off_search w b page ps cat = Inl e)"
  by (auto simp: off_search_def Let_def split: sum.splits option.splits json.splits if_splits)

theorem off_search_outcome_witness:
  "session_get nonauth_world (search_url ''https://off.example'') (search_params 1 100 None)
     = Inr nonauth_response
   \<and> status_code nonauth_response \<noteq> 200
   \<and> off_search nonauth_world ''https://off.example'' 1 100 None
       = Inl (RuntimeError ''OFF HTTP 203: { }'')
   \<and> off_search ten_world ''https://off.example/'' 1 100 None \<noteq> Inr ([], JNull)"
proof -
  have h1: "session_get nonauth_world (search_url ''https://off.example'') (search_params 1 100 None)
     = Inr nonauth_response"
    by (simp add: nonauth_world_def)
  have h2: "status_code nonauth_response \<noteq> 200"
    by (simp add: nonauth_response_def)
  have e: "''OFF HTTP '' @ str_int (status_code nonauth_response) @ '': ''
             @ take 200 (resp_text nonauth_response) = ''OFF HTTP 203: { }''"
    by code_simp
  from off_search_outcome [of nonauth_world "''https://off.example''" 1 100 None _ _ nonauth_response]
    h1 h2 e
  have a: "off_search nonauth_world ''https://off.example'' 1 100 None
       = Inl (RuntimeError ''OFF HTTP 203: { }'')"
    by simp
  from off_search_outcome [of ten_world "''https://off.example/''" 1 100 None "[]" JNull]
  have b: "off_search ten_world ''https://off.example/'' 1 100 None \<noteq> Inr ([], JNull)"
    by simp
  from h1 h2 a b show ?thesis by simp
qed

end
